theory Spec2Isabelle
  imports Main "HOL-Library.Word"
begin

unbundle bit_operations_syntax

section \<open>Dynamic exclusivity tracking (stdlib/public/runtime/Exclusivity.cpp)\<close>

text \<open>
  Pointers and \<open>uintptr_t\<close> values are 64-bit words; the null pointer is \<open>0\<close>.
  The memory that holds the compiler-allocated scratch buffers is a function from
  addresses to the three words of an \<open>Access\<close>; address \<open>0\<close> holds no record, and every
  dereference of a null pointer is an error branch of the model.

  A \<open>for\<close> or \<open>while\<close> loop that follows \<open>getNext()\<close> links need not end (on a cyclic
  chain it runs forever), so each loop is a \<open>partial_function\<close> in the option monad:
  \<open>None\<close> means that the loop does not return. Inside \<open>Some\<close>, a result is either an
  error (\<open>Inl\<close>) or a value (\<open>Inr\<close>).

  An \<open>assert\<close> is modelled as it runs in an asserts build: when it fails the result is
  \<open>AssertFailed\<close>. The loop assertions \<open>assert(last->getNext() == cur)\<close> hold by
  construction of the loop and have no branch of their own.
\<close>

type_synonym uintptr = "64 word"

datatype error =
    Conflict       \<comment> \<open>reportExclusivityConflict followed by fatalError\<close>
  | NullDeref      \<comment> \<open>a member access through a null pointer\<close>
  | AssertFailed   \<comment> \<open>a failed \<open>assert\<close>\<close>
  | Unreachable    \<comment> \<open>\<open>swift_unreachable\<close>\<close>

subsection \<open>ExclusivityFlags\<close>

text \<open>
  Modelled from the spec: the enum \<open>ExclusivityFlags\<close> and the helper
  \<open>getAccessAction(flags)\<close> live in a header that is not part of the sources at hand.
  The spec fixes two actions, \<open>Read\<close> and \<open>Modify\<close>, kept in the low bit of the
  flags word and of \<open>NextAndAction\<close> ("a small action code, low bits, at least 1 bit:
  Read vs Modify"); \<open>getAccessAction\<close> masks the flags with \<open>ActionMask\<close>.
\<close>

definition Read :: uintptr where
  "Read = 0"

definition Modify :: uintptr where
  "Modify = 1"

definition ActionMask :: uintptr where
  "ActionMask = 1"

definition getAccessAction :: "uintptr \<Rightarrow> uintptr" where
  "getAccessAction flags = flags AND ActionMask"

text \<open>
  Modelled from the spec: \<open>isTracking(flags)\<close> tests the "tracking" option embedded in the
  flags. The bit that carries it is declared in the same missing header, so the mask
  \<open>tracking\<close> is a parameter: every statement below holds for each value of it.
\<close>

definition isTracking :: "uintptr \<Rightarrow> uintptr \<Rightarrow> bool" where
  "isTracking tracking flags = (flags AND tracking \<noteq> 0)"

subsection \<open>struct Access\<close>

record Access =
  Pointer :: uintptr
  PC :: uintptr
  NextAndAction :: uintptr

definition NextMask :: uintptr where
  "NextMask = NOT ActionMask"

definition getNext :: "Access \<Rightarrow> uintptr" where
  "getNext a = NextAndAction a AND NextMask"

definition setNext :: "uintptr \<Rightarrow> Access \<Rightarrow> Access" where
  "setNext next a = a\<lparr>NextAndAction := next OR (NextAndAction a AND ActionMask)\<rparr>"

definition Access_getAccessAction :: "Access \<Rightarrow> uintptr" where
  "Access_getAccessAction a = NextAndAction a AND ActionMask"

definition initialize :: "uintptr \<Rightarrow> uintptr \<Rightarrow> uintptr \<Rightarrow> uintptr \<Rightarrow> Access" where
  "initialize pc pointer next action =
     \<lparr>Pointer = pointer, PC = pc, NextAndAction = next OR action\<rparr>"

subsection \<open>class AccessSet\<close>

text \<open>
  The state an \<open>AccessSet\<close> method works on: the memory of the access records and the
  set's own \<open>Head\<close> field (the set of the current thread's \<open>SwiftTLSContext\<close>).
\<close>

type_synonym heap = "uintptr \<Rightarrow> Access"

record AccessSet =
  mem :: heap
  Head :: uintptr

text \<open>The conflict scan of \<open>AccessSet::insert\<close>, from \<open>cur\<close> to the end of the chain.\<close>

partial_function (option) insert_scan ::
  "heap \<Rightarrow> uintptr \<Rightarrow> uintptr \<Rightarrow> uintptr \<Rightarrow> (error + unit) option" where
  "insert_scan h cur pointer action =
     (if cur = 0 then Some (Inr ())
      else if Pointer (h cur) \<noteq> pointer then insert_scan h (getNext (h cur)) pointer action
      else if action = Read \<and> action = Access_getAccessAction (h cur)
        then insert_scan h (getNext (h cur)) pointer action
      else Some (Inl Conflict))"

definition AccessSet_insert ::
  "uintptr \<Rightarrow> uintptr \<Rightarrow> uintptr \<Rightarrow> uintptr \<Rightarrow> uintptr \<Rightarrow> AccessSet
     \<Rightarrow> (error + bool \<times> AccessSet) option" where
  "AccessSet_insert tracking access pc pointer flags s =
     (let action = getAccessAction flags in
      case insert_scan (mem s) (Head s) pointer action of
        None \<Rightarrow> None
      | Some (Inl e) \<Rightarrow> Some (Inl e)
      | Some (Inr _) \<Rightarrow>
          if \<not> isTracking tracking flags then Some (Inr (False, s))
          else if access = 0 then Some (Inl NullDeref)
          else Some (Inr (True,
                 s\<lparr>mem := (mem s)(access := initialize pc pointer (Head s) action),
                   Head := access\<rparr>)))"

text \<open>
  The walk of \<open>AccessSet::remove\<close> behind the head: \<open>lastAccess\<close> (the source's \<open>last\<close>) is the record
  before \<open>cur\<close>.
  On a match the predecessor's link is redirected past \<open>cur\<close>.
\<close>

partial_function (option) remove_walk ::
  "heap \<Rightarrow> uintptr \<Rightarrow> uintptr \<Rightarrow> uintptr \<Rightarrow> (error + heap) option" where
  "remove_walk h lastAccess cur access =
     (if cur = 0 then Some (Inl Unreachable)
      else if cur = access
        then Some (Inr (h(lastAccess := setNext (getNext (h cur)) (h lastAccess))))
      else remove_walk h cur (getNext (h cur)) access)"

definition AccessSet_remove :: "uintptr \<Rightarrow> AccessSet \<Rightarrow> (error + AccessSet) option" where
  "AccessSet_remove access s =
     (if Head s = 0 then Some (Inl AssertFailed)
      else if Head s = access then Some (Inr (s\<lparr>Head := getNext (mem s (Head s))\<rparr>))
      else case remove_walk (mem s) (Head s) (getNext (mem s (Head s))) access of
             None \<Rightarrow> None
           | Some (Inl e) \<Rightarrow> Some (Inl e)
           | Some (Inr h') \<Rightarrow> Some (Inr (s\<lparr>mem := h'\<rparr>)))"

text \<open>
  \<open>AccessSet::findParentAccess\<close>: the loop starts at \<open>Head->getNext()\<close>, with no test of
  \<open>Head\<close> before it is dereferenced.
\<close>

partial_function (option) findParent_walk ::
  "heap \<Rightarrow> uintptr \<Rightarrow> uintptr \<Rightarrow> uintptr \<Rightarrow> uintptr option" where
  "findParent_walk h lastAccess cur childAccess =
     (if cur = 0 then Some 0
      else if cur = childAccess then Some lastAccess
      else findParent_walk h cur (getNext (h cur)) childAccess)"

definition findParentAccess :: "uintptr \<Rightarrow> AccessSet \<Rightarrow> (error + uintptr) option" where
  "findParentAccess childAccess s =
     (if Head s = 0 then Some (Inl NullDeref)
      else map_option Inr
             (findParent_walk (mem s) (Head s) (getNext (mem s (Head s))) childAccess))"

partial_function (option) getTail_walk :: "heap \<Rightarrow> uintptr \<Rightarrow> uintptr option" where
  "getTail_walk h cur =
     (let next = getNext (h cur) in
      if next \<noteq> 0 then getTail_walk h next else Some cur)"

definition getTail :: "AccessSet \<Rightarrow> uintptr option" where
  "getTail s = (if Head s = 0 then Some 0 else getTail_walk (mem s) (Head s))"

subsection \<open>swift_beginAccess and swift_endAccess\<close>

text \<open>
  \<open>disableExclusivityChecking\<close> is the process-wide flag
  \<open>_swift_disableExclusivityChecking\<close>; \<open>returnAddress\<close> is what
  \<open>get_return_address()\<close> yields in the caller's frame. \<open>buffer\<close> is the address of the
  scratch buffer, read as an \<open>Access\<close>.
\<close>

definition swift_beginAccess ::
  "bool \<Rightarrow> uintptr \<Rightarrow> uintptr \<Rightarrow> uintptr \<Rightarrow> uintptr \<Rightarrow> uintptr \<Rightarrow> uintptr \<Rightarrow> AccessSet
     \<Rightarrow> (error + AccessSet) option" where
  "swift_beginAccess disableExclusivityChecking tracking returnAddress pointer buffer flags pc s =
     (if pointer = 0 then Some (Inl AssertFailed)
      else if disableExclusivityChecking then
        (if buffer = 0 then Some (Inl NullDeref)
         else Some (Inr (s\<lparr>mem := (mem s)(buffer := (mem s buffer)\<lparr>Pointer := 0\<rparr>)\<rparr>)))
      else
        (let pc' = (if pc = 0 then returnAddress else pc) in
         case AccessSet_insert tracking buffer pc' pointer flags s of
           None \<Rightarrow> None
         | Some (Inl e) \<Rightarrow> Some (Inl e)
         | Some (Inr (inserted, s')) \<Rightarrow>
             if inserted then Some (Inr s')
             else if buffer = 0 then Some (Inl NullDeref)
             else Some (Inr (s'\<lparr>mem := (mem s')(buffer := (mem s' buffer)\<lparr>Pointer := 0\<rparr>)\<rparr>))))"

definition swift_endAccess :: "uintptr \<Rightarrow> AccessSet \<Rightarrow> (error + AccessSet) option" where
  "swift_endAccess buffer s =
     (if buffer = 0 then Some (Inl NullDeref)
      else let pointer = Pointer (mem s buffer) in
        if pointer = 0 then Some (Inr s)
        else AccessSet_remove buffer s)"

subsection \<open>struct SwiftTaskThreadLocalContext and the push/pop protocol\<close>

text \<open>The two words \<open>state[0]\<close> and \<open>state[1]\<close> reserved in each task.\<close>

record SwiftTaskThreadLocalContext =
  state0 :: uintptr
  state1 :: uintptr

definition hasInitialAccessSet :: "SwiftTaskThreadLocalContext \<Rightarrow> bool" where
  "hasInitialAccessSet t = (state0 t \<noteq> 0)"

definition getTaskAccessSetHead :: "SwiftTaskThreadLocalContext \<Rightarrow> uintptr" where
  "getTaskAccessSetHead t = state0 t"

definition getTaskAccessSetTail :: "SwiftTaskThreadLocalContext \<Rightarrow> uintptr" where
  "getTaskAccessSetTail t = state1 t"

definition setTaskAccessSetHead ::
  "uintptr \<Rightarrow> SwiftTaskThreadLocalContext \<Rightarrow> SwiftTaskThreadLocalContext" where
  "setTaskAccessSetHead newHead t = t\<lparr>state0 := newHead\<rparr>"

definition setTaskAccessSetTail ::
  "uintptr \<Rightarrow> SwiftTaskThreadLocalContext \<Rightarrow> SwiftTaskThreadLocalContext" where
  "setTaskAccessSetTail newTail t = t\<lparr>state1 := newTail\<rparr>"

text \<open>Push: \<open>swift_task_enterThreadLocalContext\<close>. It has no loop.\<close>

definition swift_task_enterThreadLocalContext ::
  "SwiftTaskThreadLocalContext \<Rightarrow> AccessSet
     \<Rightarrow> error + SwiftTaskThreadLocalContext \<times> AccessSet" where
  "swift_task_enterThreadLocalContext taskCtx s =
     (if \<not> hasInitialAccessSet taskCtx then
        (if Head s = 0 then Inr (taskCtx, s)
         else Inr (setTaskAccessSetHead (Head s) taskCtx, s))
      else if Head s = 0 then
        Inr (setTaskAccessSetTail 0 (setTaskAccessSetHead 0 taskCtx),
             s\<lparr>Head := getTaskAccessSetHead taskCtx\<rparr>)
      else
        (let oldHead = Head s;
             tail = getTaskAccessSetTail taskCtx
         in if tail = 0 then Inl NullDeref
            else Inr (setTaskAccessSetTail 0 (setTaskAccessSetHead oldHead taskCtx),
                      s\<lparr>Head := getTaskAccessSetHead taskCtx,
                        mem := (mem s)(tail := setNext oldHead (mem s tail))\<rparr>)))"

text \<open>Pop: \<open>swift_task_exitThreadLocalContext\<close>. It walks the chain in two of its cases.\<close>

definition swift_task_exitThreadLocalContext ::
  "SwiftTaskThreadLocalContext \<Rightarrow> AccessSet
     \<Rightarrow> (error + SwiftTaskThreadLocalContext \<times> AccessSet) option" where
  "swift_task_exitThreadLocalContext taskCtx s =
     (let oldHead = getTaskAccessSetHead taskCtx in
      if oldHead = 0 then
        (if Head s = 0 then
           (if getTaskAccessSetTail taskCtx \<noteq> 0 then Some (Inl AssertFailed)
            else Some (Inr (taskCtx, s)))
         else
           (let newHead = Head s in
            case getTail s of
              None \<Rightarrow> None
            | Some newTail \<Rightarrow>
                if newTail = 0 then Some (Inl AssertFailed)
                else Some (Inr (setTaskAccessSetTail newTail
                                  (setTaskAccessSetHead newHead taskCtx),
                                s\<lparr>Head := 0\<rparr>))))
      else if Head s = oldHead then
        Some (Inr (setTaskAccessSetTail 0 (setTaskAccessSetHead 0 taskCtx), s))
      else
        (let newHead = Head s in
         case findParentAccess oldHead s of
           None \<Rightarrow> None
         | Some (Inl e) \<Rightarrow> Some (Inl e)
         | Some (Inr newEnd) \<Rightarrow>
             if newEnd = 0 then Some (Inl NullDeref)
             else Some (Inr (setTaskAccessSetTail newEnd
                               (setTaskAccessSetHead newHead taskCtx),
                             s\<lparr>Head := oldHead,
                               mem := (mem s)(newEnd := setNext 0 (mem s newEnd))\<rparr>))))"

text \<open>A push followed at once by the pop, on the same thread.\<close>

definition push_then_pop ::
  "SwiftTaskThreadLocalContext \<Rightarrow> AccessSet
     \<Rightarrow> (error + SwiftTaskThreadLocalContext \<times> AccessSet) option" where
  "push_then_pop taskCtx s =
     (case swift_task_enterThreadLocalContext taskCtx s of
        Inl e \<Rightarrow> Some (Inl e)
      | Inr (taskCtx', s') \<Rightarrow> swift_task_exitThreadLocalContext taskCtx' s')"

section \<open>Well-formed access sets\<close>

text \<open>
  \<open>lseg h p xs q\<close>: following the links from \<open>p\<close> visits exactly the records \<open>xs\<close>, in
  this order, and then arrives at \<open>q\<close>. A \<open>chain\<close> is a segment that ends at the null
  pointer: the list of records of a well-formed set.
\<close>

fun lseg :: "heap \<Rightarrow> uintptr \<Rightarrow> uintptr list \<Rightarrow> uintptr \<Rightarrow> bool" where
  "lseg h p [] q = (p = q)"
| "lseg h p (x # xs) q = (p = x \<and> x \<noteq> 0 \<and> lseg h (getNext (h x)) xs q)"

definition chain :: "heap \<Rightarrow> uintptr \<Rightarrow> uintptr list \<Rightarrow> bool" where
  "chain h p xs = lseg h p xs 0"

text \<open>
  An \<open>Access *\<close> is aligned for a struct of three words, so its action bits are clear.
\<close>

definition aligned :: "uintptr \<Rightarrow> bool" where
  "aligned p = (p AND ActionMask = 0)"

text \<open>
  The conflict rule of the spec: some listed record has the same storage pointer and one
  of the two actions is \<open>Modify\<close>.
\<close>

definition conflicts :: "heap \<Rightarrow> uintptr list \<Rightarrow> uintptr \<Rightarrow> uintptr \<Rightarrow> bool" where
  "conflicts h xs pointer action =
     (\<exists>cur \<in> set xs. Pointer (h cur) = pointer \<and>
                       (action = Modify \<or> Access_getAccessAction (h cur) = Modify))"

text \<open>
  A well-formed saved span of a suspended task, with \<open>ts\<close> the task's records and \<open>ss\<close>
  the records of the thread's set: either the task holds no access and both words are
  null, or \<open>state[0]\<close> heads the null-terminated chain \<open>ts\<close>, \<open>state[1]\<close> is its last
  record, and no record is on both lists.
\<close>

definition wf_span ::
  "heap \<Rightarrow> SwiftTaskThreadLocalContext \<Rightarrow> uintptr list \<Rightarrow> uintptr list \<Rightarrow> bool" where
  "wf_span h t ts ss =
     (if ts = [] then state0 t = 0 \<and> state1 t = 0
      else chain h (state0 t) ts \<and> state1 t = last ts \<and> set ts \<inter> set ss = {})"

text \<open>
  A sample memory for concrete runs: the record at address 8 (a \<open>Read\<close> of storage
  \<open>0x1000\<close>) links to the record at address 16 (a \<open>Modify\<close> of storage \<open>0x2000\<close>),
  which ends the chain.
\<close>

definition h0 :: heap where
  "h0 = (\<lambda>_. \<lparr>Pointer = 0, PC = 0, NextAndAction = 0\<rparr>)
          (8 := \<lparr>Pointer = 0x1000, PC = 1, NextAndAction = 16\<rparr>,
           16 := \<lparr>Pointer = 0x2000, PC = 2, NextAndAction = 1\<rparr>)"

text \<open>
  Two more: \<open>h1\<close> puts the record at address 24 (a \<open>Modify\<close> of storage \<open>0x3000\<close>)
  in front of that chain; \<open>h2\<close> adds to \<open>h0\<close> a second, separate chain, from the record
  at address 32 to the record at address 40, as the saved span of a suspended task.
\<close>

definition h1 :: heap where
  "h1 = h0(24 := \<lparr>Pointer = 0x3000, PC = 7, NextAndAction = 9\<rparr>)"

definition h2 :: heap where
  "h2 = h0(32 := \<lparr>Pointer = 0x4000, PC = 3, NextAndAction = 41\<rparr>,
          40 := \<lparr>Pointer = 0x5000, PC = 4, NextAndAction = 0\<rparr>)"

section \<open>Basic facts\<close>

subsection \<open>The packed link word\<close>

lemmas bitwise64 = bit_eq_iff [where ?'a = "64 word"] bit_and_iff bit_or_iff bit_not_iff bit_1_iff

lemma aligned_getNext: "aligned (getNext a)"
  by (auto simp: aligned_def getNext_def NextMask_def ActionMask_def bitwise64)

lemma aligned_0: "aligned 0"
  by (simp add: aligned_def)

lemma getNext_setNext: "aligned n \<Longrightarrow> getNext (setNext n a) = n"
  by (auto simp: aligned_def getNext_def setNext_def NextMask_def ActionMask_def bitwise64)

lemma action_setNext:
  "aligned n \<Longrightarrow> Access_getAccessAction (setNext n a) = Access_getAccessAction a"
  by (auto simp: aligned_def Access_getAccessAction_def setNext_def ActionMask_def bitwise64)

lemma Pointer_setNext: "Pointer (setNext n a) = Pointer a"
  by (simp add: setNext_def)

lemma PC_setNext: "PC (setNext n a) = PC a"
  by (simp add: setNext_def)

lemma setNext_getNext: "setNext (getNext a) a = a"
proof -
  have "(NextAndAction a AND NOT 1) OR (NextAndAction a AND 1) = NextAndAction a"
    by (auto simp: bitwise64)
  then show ?thesis
    by (simp add: setNext_def getNext_def NextMask_def ActionMask_def)
qed

lemma setNext_setNext: "setNext m (setNext n a) = setNext m a" if "aligned n"
proof -
  have "(n OR (NextAndAction a AND 1)) AND 1 = NextAndAction a AND 1"
    using that by (auto simp: aligned_def ActionMask_def bitwise64)
  then show ?thesis
    by (simp add: setNext_def ActionMask_def)
qed

lemma setNext_restore:
  assumes "getNext a = 0" and "aligned n"
  shows "setNext 0 (setNext n a) = a"
proof -
  have "setNext 0 (setNext n a) = setNext (getNext a) a"
    using assms by (simp add: setNext_setNext)
  then show ?thesis
    by (simp add: setNext_getNext)
qed

lemma getNext_initialize:
  "aligned n \<Longrightarrow> getNext (initialize pc p n (getAccessAction f)) = n"
  by (auto simp: aligned_def getNext_def initialize_def getAccessAction_def NextMask_def
      ActionMask_def bitwise64)

lemma action_initialize:
  "aligned n \<Longrightarrow>
   Access_getAccessAction (initialize pc p n (getAccessAction f)) = getAccessAction f"
  by (auto simp: aligned_def Access_getAccessAction_def initialize_def getAccessAction_def
      ActionMask_def bitwise64)

lemma getAccessAction_cases: "getAccessAction f = Read \<or> getAccessAction f = Modify"
  by (auto simp: getAccessAction_def Read_def Modify_def ActionMask_def bitwise64)

lemma Access_getAccessAction_cases:
  "Access_getAccessAction a = Read \<or> Access_getAccessAction a = Modify"
  by (auto simp: Access_getAccessAction_def Read_def Modify_def ActionMask_def bitwise64)

lemma Read_neq_Modify: "Read \<noteq> Modify"
  by (simp add: Read_def Modify_def)

subsection \<open>Segments and chains\<close>

lemma lseg_append:
  "lseg h p (xs @ ys) q \<longleftrightarrow> (\<exists>m. lseg h p xs m \<and> lseg h m ys q)"
  by (induction xs arbitrary: p) auto

lemma lseg_update_other:
  "a \<notin> set xs \<Longrightarrow> lseg (h(a := v)) p xs q = lseg h p xs q"
  by (induction xs arbitrary: p) auto

lemma lseg_update_same_link:
  "getNext v = getNext (h a) \<Longrightarrow> lseg (h(a := v)) p xs q = lseg h p xs q"
  by (induction xs arbitrary: p) auto

lemma lseg_not_null: "lseg h p xs q \<Longrightarrow> 0 \<notin> set xs"
  by (induction xs arbitrary: p) auto

lemma lseg_head: "lseg h p xs q \<Longrightarrow> xs \<noteq> [] \<Longrightarrow> p = hd xs \<and> p \<noteq> 0"
  by (cases xs) auto

lemma chain_null: "chain h 0 xs \<longleftrightarrow> xs = []"
  by (cases xs) (auto simp: chain_def)

lemma chain_unique: "chain h p xs \<Longrightarrow> chain h p ys \<Longrightarrow> xs = ys"
proof (induction xs arbitrary: p ys)
  case Nil
  then show ?case by (cases ys) (auto simp: chain_def)
next
  case (Cons x xs)
  then show ?case by (cases ys) (auto simp: chain_def)
qed

lemma chain_suffix: "chain h p (xs @ ys) \<Longrightarrow> \<exists>m. lseg h p xs m \<and> chain h m ys"
  by (simp add: chain_def lseg_append)

lemma chain_not_revisited:
  assumes "chain h p (x # xs)"
  shows "x \<notin> set xs"
proof
  assume "x \<in> set xs"
  then obtain us vs where xs: "xs = us @ x # vs"
    by (auto simp: in_set_conv_decomp)
  with assms have "chain h p ((x # us) @ (x # vs))" by simp
  then obtain m where m: "lseg h p (x # us) m" "chain h m (x # vs)"
    using chain_suffix by blast
  from m(2) have "m = x" by (simp add: chain_def)
  moreover from assms have "p = x" by (simp add: chain_def)
  ultimately have "chain h p (x # vs)" using m(2) by simp
  with assms have "x # xs = x # vs" by (rule chain_unique)
  with xs show False by simp
qed

lemma chain_distinct: "chain h p xs \<Longrightarrow> distinct xs"
proof (induction xs arbitrary: p)
  case Nil
  then show ?case by simp
next
  case (Cons x xs)
  from Cons.prems have "x \<notin> set xs" by (rule chain_not_revisited)
  moreover from Cons.prems have "chain h (getNext (h x)) xs" by (simp add: chain_def)
  then have "distinct xs" by (rule Cons.IH)
  ultimately show ?case by simp
qed


subsection \<open>The loops on a chain\<close>

lemma insert_scan_chain:
  "chain h cur xs \<Longrightarrow>
   insert_scan h cur pointer action =
     Some (if \<exists>x \<in> set xs. Pointer (h x) = pointer \<and>
                 \<not> (action = Read \<and> action = Access_getAccessAction (h x))
           then Inl Conflict else Inr ())"
proof (induction xs arbitrary: cur)
  case Nil
  then show ?case by (subst insert_scan.simps) (simp add: chain_def)
next
  case (Cons x xs)
  from Cons.prems have cur: "cur = x" "x \<noteq> 0" and rest: "chain h (getNext (h x)) xs"
    by (simp_all add: chain_def)
  show ?case
    using Cons.IH [OF rest]
    by (subst insert_scan.simps) (auto simp: cur)
qed

lemma remove_walk_found:
  "lseg h cur xs access \<Longrightarrow> access \<noteq> 0 \<Longrightarrow> access \<notin> set xs \<Longrightarrow>
   remove_walk h l cur access =
     Some (Inr (h(last (l # xs) := setNext (getNext (h access)) (h (last (l # xs))))))"
proof (induction xs arbitrary: l cur)
  case Nil
  then show ?case by (subst remove_walk.simps) simp
next
  case (Cons x xs)
  from Cons.prems have cur: "cur = x" "x \<noteq> 0" "x \<noteq> access"
    and rest: "lseg h (getNext (h x)) xs access" "access \<notin> set xs"
    by auto
  have step: "last (l # x # xs) = last (x # xs)" by simp
  show ?case
    unfolding step
    by (subst remove_walk.simps)
      (simp add: cur Cons.IH [OF rest(1) Cons.prems(2) rest(2)] fun_upd_def del: last.simps)
qed

lemma remove_walk_absent:
  "chain h cur xs \<Longrightarrow> access \<notin> set xs \<Longrightarrow>
   remove_walk h l cur access = Some (Inl Unreachable)"
proof (induction xs arbitrary: l cur)
  case Nil
  then show ?case by (subst remove_walk.simps) (simp add: chain_def)
next
  case (Cons x xs)
  from Cons.prems have cur: "cur = x" "x \<noteq> 0" "x \<noteq> access"
    and rest: "chain h (getNext (h x)) xs" "access \<notin> set xs"
    by (auto simp: chain_def)
  show ?case
    by (subst remove_walk.simps) (simp add: cur Cons.IH [OF rest])
qed

lemma findParent_walk_found:
  "lseg h cur xs child \<Longrightarrow> child \<noteq> 0 \<Longrightarrow> child \<notin> set xs \<Longrightarrow>
   findParent_walk h l cur child = Some (last (l # xs))"
proof (induction xs arbitrary: l cur)
  case Nil
  then show ?case by (subst findParent_walk.simps) simp
next
  case (Cons x xs)
  from Cons.prems have cur: "cur = x" "x \<noteq> 0" "x \<noteq> child"
    and rest: "lseg h (getNext (h x)) xs child" "child \<notin> set xs"
    by auto
  have step: "last (l # x # xs) = last (x # xs)" by simp
  show ?case
    unfolding step
    by (subst findParent_walk.simps)
      (simp add: cur Cons.IH [OF rest(1) Cons.prems(2) rest(2)] del: last.simps)
qed

lemma findParent_walk_absent:
  "chain h cur xs \<Longrightarrow> child \<notin> set xs \<Longrightarrow> findParent_walk h l cur child = Some 0"
proof (induction xs arbitrary: l cur)
  case Nil
  then show ?case by (subst findParent_walk.simps) (simp add: chain_def)
next
  case (Cons x xs)
  from Cons.prems have cur: "cur = x" "x \<noteq> 0" "x \<noteq> child"
    and rest: "chain h (getNext (h x)) xs" "child \<notin> set xs"
    by (auto simp: chain_def)
  show ?case
    by (subst findParent_walk.simps) (simp add: cur Cons.IH [OF rest])
qed

lemma getTail_walk_chain:
  "chain h cur xs \<Longrightarrow> xs \<noteq> [] \<Longrightarrow> getTail_walk h cur = Some (last xs)"
proof (induction xs arbitrary: cur)
  case Nil
  then show ?case by simp
next
  case (Cons x xs)
  from Cons.prems have cur: "cur = x" "x \<noteq> 0" and rest: "chain h (getNext (h x)) xs"
    by (simp_all add: chain_def)
  show ?case
  proof (cases xs)
    case Nil
    with rest have "getNext (h x) = 0" by (simp add: chain_def)
    then show ?thesis
      by (subst getTail_walk.simps) (simp add: cur Nil)
  next
    case (Cons y ys)
    with rest have "getNext (h x) \<noteq> 0" by (auto simp: chain_def)
    then show ?thesis
      by (subst getTail_walk.simps) (simp add: cur Cons.IH [OF rest] Cons)
  qed
qed

subsection \<open>What \<open>AccessSet::insert\<close> computes on a chain\<close>

lemma conflicts_scan:
  "conflicts h xs pointer (getAccessAction flags) \<longleftrightarrow>
   (\<exists>x \<in> set xs. Pointer (h x) = pointer \<and>
      \<not> (getAccessAction flags = Read \<and> getAccessAction flags = Access_getAccessAction (h x)))"
  using getAccessAction_cases [of flags] Access_getAccessAction_cases Read_neq_Modify
  unfolding conflicts_def by metis

lemma AccessSet_insert_chain:
  assumes "chain (mem s) (Head s) xs"
  shows "AccessSet_insert tracking access pc pointer flags s =
    (if conflicts (mem s) xs pointer (getAccessAction flags) then Some (Inl Conflict)
     else if \<not> isTracking tracking flags then Some (Inr (False, s))
     else if access = 0 then Some (Inl NullDeref)
     else Some (Inr (True,
            s\<lparr>mem := (mem s)(access :=
                  initialize pc pointer (Head s) (getAccessAction flags)),
              Head := access\<rparr>)))"
  unfolding AccessSet_insert_def Let_def insert_scan_chain [OF assms] conflicts_scan
  by simp

lemma chain_h0: "chain h0 8 [8, 16]"
  by (simp add: chain_def h0_def getNext_def NextMask_def ActionMask_def)

lemma chain_h1: "chain h1 24 [24, 8, 16]"
  by (simp add: chain_def h1_def h0_def getNext_def NextMask_def ActionMask_def)

lemma chain_split:
  assumes "chain h p (xs @ r # ys)"
  shows "lseg h p xs r" and "r \<noteq> 0" and "chain h (getNext (h r)) ys"
    and "r \<notin> set xs" and "r \<notin> set ys" and "set xs \<inter> set ys = {}"
proof -
  from assms obtain m where m: "lseg h p xs m" "lseg h m (r # ys) 0"
    by (auto simp: chain_def lseg_append)
  then show "lseg h p xs r" "r \<noteq> 0" "chain h (getNext (h r)) ys"
    by (auto simp: chain_def)
  from chain_distinct [OF assms]
  show "r \<notin> set xs" "r \<notin> set ys" "set xs \<inter> set ys = {}"
    by auto
qed

lemma lseg_redirect_last:
  assumes seg: "lseg h p xs r" and ne: "xs \<noteq> []" and dist: "distinct xs"
    and al: "aligned n"
  shows "lseg (h(last xs := setNext n (h (last xs)))) p xs n"
proof -
  from ne obtain bs q where xs: "xs = bs @ [q]"
    by (cases xs rule: rev_cases) auto
  with dist have nin: "q \<notin> set bs" by simp
  from seg xs have front: "lseg h p bs q" and q: "q \<noteq> 0"
    by (auto simp: lseg_append)
  have "lseg (h(q := setNext n (h q))) p bs q"
    using front nin by (simp add: lseg_update_other)
  moreover have "lseg (h(q := setNext n (h q))) q [q] n"
    using q al by (simp add: getNext_setNext)
  ultimately show ?thesis
    unfolding xs by (auto simp: lseg_append)
qed

lemma AccessSet_remove_head:
  assumes "chain (mem s) (Head s) (access # ys)"
  shows "AccessSet_remove access s = Some (Inr (s\<lparr>Head := getNext (mem s access)\<rparr>))"
  using assms by (simp add: AccessSet_remove_def chain_def)

lemma AccessSet_remove_inner:
  assumes "chain (mem s) (Head s) (xs @ access # ys)" and "xs \<noteq> []"
  shows "AccessSet_remove access s =
    Some (Inr (s\<lparr>mem := (mem s)(last xs :=
                 setNext (getNext (mem s access)) (mem s (last xs)))\<rparr>))"
proof -
  from assms(2) obtain x xs' where xs: "xs = x # xs'" by (cases xs) auto
  note sp = chain_split [OF assms(1)]
  from sp(1) xs have hd: "Head s = x" "x \<noteq> 0" and rest: "lseg (mem s) (getNext (mem s x)) xs' access"
    by auto
  from sp(4) xs have ne: "x \<noteq> access" "access \<notin> set xs'" by auto
  have "remove_walk (mem s) x (getNext (mem s x)) access =
      Some (Inr ((mem s)(last (x # xs') :=
        setNext (getNext (mem s access)) (mem s (last (x # xs'))))))"
    using rest sp(2) ne(2) by (rule remove_walk_found)
  then show ?thesis
    using hd ne(1) unfolding xs by (simp add: AccessSet_remove_def del: last.simps)
qed

lemma chain_after_unlink:
  assumes "chain h p (xs @ access # ys)" and "xs \<noteq> []"
  shows "chain (h(last xs := setNext (getNext (h access)) (h (last xs)))) p (xs @ ys)"
proof -
  note sp = chain_split [OF assms(1)]
  let ?h' = "h(last xs := setNext (getNext (h access)) (h (last xs)))"
  from chain_distinct [OF assms(1)] have d: "distinct xs" by simp
  have "lseg ?h' p xs (getNext (h access))"
    using sp(1) assms(2) d aligned_getNext by (rule lseg_redirect_last)
  moreover have "last xs \<notin> set ys"
    using sp(6) assms(2) last_in_set by fastforce
  then have "lseg ?h' (getNext (h access)) ys 0"
    using sp(3) by (simp add: chain_def lseg_update_other)
  ultimately show ?thesis
    by (auto simp: chain_def lseg_append)
qed

lemmas task_defs = hasInitialAccessSet_def getTaskAccessSetHead_def getTaskAccessSetTail_def
  setTaskAccessSetHead_def setTaskAccessSetTail_def

lemma chain_last_link: "chain h p xs \<Longrightarrow> xs \<noteq> [] \<Longrightarrow> getNext (h (last xs)) = 0"
  by (cases xs rule: rev_cases) (auto simp: chain_def lseg_append)

lemma chain_head: "chain h p xs \<Longrightarrow> xs \<noteq> [] \<Longrightarrow> p = hd xs \<and> p \<noteq> 0"
  unfolding chain_def by (rule lseg_head)

lemma chain_nonempty: "chain h p xs \<Longrightarrow> p \<noteq> 0 \<Longrightarrow> xs \<noteq> []"
  by (auto simp: chain_def)

lemma getTail_chain:
  "chain (mem s) (Head s) xs \<Longrightarrow> xs \<noteq> [] \<Longrightarrow> getTail s = Some (last xs)"
  using chain_head [of "mem s" "Head s" xs] by (auto simp: getTail_def getTail_walk_chain)

lemma findParentAccess_listed:
  assumes "chain (mem s) (Head s) (bs @ c # cs)"
  shows "findParentAccess c s = Some (Inr (if bs = [] then 0 else last bs))"
proof (cases bs)
  case Nil
  with assms have hd: "Head s = c" "c \<noteq> 0" and rest: "chain (mem s) (getNext (mem s c)) cs"
    by (simp_all add: chain_def)
  from chain_not_revisited [of "mem s" "Head s" c cs] assms Nil have "c \<notin> set cs"
    by simp
  with rest have "findParent_walk (mem s) c (getNext (mem s c)) c = Some 0"
    by (rule findParent_walk_absent)
  with hd Nil show ?thesis by (simp add: findParentAccess_def)
next
  case (Cons x xs')
  note sp = chain_split [OF assms]
  from sp(1) Cons have hd: "Head s = x" "x \<noteq> 0"
    and rest: "lseg (mem s) (getNext (mem s x)) xs' c"
    by auto
  from sp(4) Cons have "c \<notin> set xs'" by simp
  with rest sp(2)
  have "findParent_walk (mem s) x (getNext (mem s x)) c = Some (last (x # xs'))"
    by (intro findParent_walk_found)
  with hd Cons show ?thesis by (simp add: findParentAccess_def del: last.simps)
qed

lemma findParentAccess_absent:
  assumes "chain (mem s) (Head s) xs" and "xs \<noteq> []" and "c \<notin> set xs"
  shows "findParentAccess c s = Some (Inr 0)"
proof -
  from assms(2) obtain x xs' where xs: "xs = x # xs'" by (cases xs) auto
  with assms(1) have hd: "Head s = x" "x \<noteq> 0" and rest: "chain (mem s) (getNext (mem s x)) xs'"
    by (simp_all add: chain_def)
  from assms(3) xs have "c \<notin> set xs'" by simp
  with rest have "findParent_walk (mem s) x (getNext (mem s x)) c = Some 0"
    by (rule findParent_walk_absent)
  with hd show ?thesis by (simp add: findParentAccess_def)
qed

lemma chain_spliced:
  assumes ts: "chain h tb ts" and ne: "ts \<noteq> []" and ss: "chain h oh ss"
    and disj: "set ts \<inter> set ss = {}" and al: "aligned oh"
  shows "chain (h(last ts := setNext oh (h (last ts)))) tb (ts @ ss)"
proof -
  let ?h' = "h(last ts := setNext oh (h (last ts)))"
  from ts have "lseg h tb ts 0" by (simp add: chain_def)
  then have "lseg ?h' tb ts oh"
    using ne chain_distinct [OF ts] al by (rule lseg_redirect_last)
  moreover from ne disj have "last ts \<notin> set ss"
    using last_in_set by fastforce
  with ss have "lseg ?h' oh ss 0"
    by (simp add: chain_def lseg_update_other)
  ultimately show ?thesis
    by (auto simp: chain_def lseg_append)
qed

lemma chain_h2_thread: "chain h2 8 [8, 16]"
  by (simp add: chain_def h2_def h0_def getNext_def NextMask_def ActionMask_def)

lemma chain_h2_task: "chain h2 32 [32, 40]"
  by (simp add: chain_def h2_def h0_def getNext_def NextMask_def ActionMask_def)

lemma chain_cut:
  assumes "chain h p (xs @ c # ys)" and "xs \<noteq> []"
  shows "chain (h(last xs := setNext 0 (h (last xs)))) p xs"
    and "chain (h(last xs := setNext 0 (h (last xs)))) c (c # ys)"
proof -
  note sp = chain_split [OF assms(1)]
  let ?h' = "h(last xs := setNext 0 (h (last xs)))"
  from chain_distinct [OF assms(1)] have d: "distinct xs" by simp
  from sp(1) assms(2) d aligned_0 have "lseg ?h' p xs 0"
    by (rule lseg_redirect_last)
  then show "chain ?h' p xs" by (simp add: chain_def)
  have "last xs \<notin> set (c # ys)"
    using sp(4,6) assms(2) last_in_set by fastforce
  moreover have "lseg h c (c # ys) 0"
    using sp(2,3) by (simp add: chain_def)
  ultimately show "chain ?h' c (c # ys)"
    unfolding chain_def using lseg_update_other [of "last xs" "c # ys" h] by blast
qed

section \<open>The claims\<close>

text \<open>
  C1. For a well-formed thread set (the chain \<open>ss\<close> from an aligned head) and a
  well-formed saved span of the task (\<open>wf_span\<close>), push followed at once by pop returns,
  without error, exactly the task words and the set it started from: the same
  \<open>state[0]\<close> and \<open>state[1]\<close>, the same head and the same memory. The four combinations
  of an empty or non-empty span with an empty or non-empty thread set are the push cases
  1-2, 3-4, 5-6 and 7-8 of the table; with nothing between push and pop they are all
  eight cases.
\<close>

theorem push_pop_restores:
  assumes ss: "chain (mem s) (Head s) ss" and al: "aligned (Head s)"
    and wf: "wf_span (mem s) t ts ss"
  shows "push_then_pop t s = Some (Inr (t, s))"
proof (cases "ts = []")
  case True
  with wf have z: "state0 t = 0" "state1 t = 0"
    by (simp_all add: wf_span_def)
  then show ?thesis
    by (simp add: push_then_pop_def swift_task_enterThreadLocalContext_def
        swift_task_exitThreadLocalContext_def task_defs)
next
  case False
  with wf have ts: "chain (mem s) (state0 t) ts" and te: "state1 t = last ts"
    and disj: "set ts \<inter> set ss = {}"
    by (simp_all add: wf_span_def)
  from chain_head [OF ts False] have tb: "state0 t \<noteq> 0" "state0 t = hd ts"
    by blast+
  from ts False have "last ts \<noteq> 0"
    using lseg_not_null last_in_set unfolding chain_def by metis
  with te have te0: "state1 t \<noteq> 0" by simp
  show ?thesis
  proof (cases "Head s = 0")
    case True
    let ?s1 = "s\<lparr>Head := state0 t\<rparr>"
    have "chain (mem ?s1) (Head ?s1) ts" using ts by simp
    then have "getTail ?s1 = Some (last ts)"
      using False by (rule getTail_chain)
    with tb te te0 True show ?thesis
      by (simp add: push_then_pop_def swift_task_enterThreadLocalContext_def
          swift_task_exitThreadLocalContext_def task_defs)
  next
    case hn: False
    let ?h1 = "(mem s)(state1 t := setNext (Head s) (mem s (state1 t)))"
    let ?s1 = "s\<lparr>Head := state0 t, mem := ?h1\<rparr>"
    let ?t1 = "t\<lparr>state0 := Head s, state1 := 0\<rparr>"
    have push: "swift_task_enterThreadLocalContext t s = Inr (?t1, ?s1)"
      using tb te0 hn by (simp add: swift_task_enterThreadLocalContext_def task_defs Let_def)
    from chain_nonempty [OF ss hn] obtain y ys where ssc: "ss = y # ys"
      by (cases ss) auto
    with ss have y: "y = Head s" by (simp add: chain_def)
    have "chain ?h1 (state0 t) (ts @ ss)"
      unfolding te using ts False ss disj al by (rule chain_spliced)
    then have c1: "chain (mem ?s1) (Head ?s1) (ts @ Head s # ys)"
      using ssc y by simp
    have "hd ts \<in> set ts" using False by simp
    moreover have "Head s \<in> set ss" using ssc y by simp
    ultimately have neq: "state0 t \<noteq> Head s"
      using disj tb(2) by auto
    have fp: "findParentAccess (Head s) ?s1 = Some (Inr (state1 t))"
      using findParentAccess_listed [OF c1] False te by simp
    have "setNext 0 (setNext (Head s) (mem s (state1 t))) = mem s (state1 t)"
      using chain_last_link [OF ts False] al te by (simp add: setNext_restore)
    then have mem: "?h1(state1 t := setNext 0 (?h1 (state1 t))) = mem s"
      by simp
    have "swift_task_exitThreadLocalContext ?t1 ?s1 = Some (Inr (t, s))"
      using hn neq fp te0 mem
      by (simp add: swift_task_exitThreadLocalContext_def task_defs)
    with push show ?thesis
      by (simp add: push_then_pop_def)
  qed
qed

theorem push_pop_restores_witness:
  "chain h2 8 [8, 16] \<and> aligned 8
   \<and> wf_span h2 \<lparr>state0 = 32, state1 = 40\<rparr> [32, 40] [8, 16]
   \<and> push_then_pop \<lparr>state0 = 32, state1 = 40\<rparr> \<lparr>mem = h2, Head = 8\<rparr>
       = Some (Inr (\<lparr>state0 = 32, state1 = 40\<rparr>, \<lparr>mem = h2, Head = 8\<rparr>))
   \<and> push_then_pop \<lparr>state0 = 32, state1 = 40\<rparr> \<lparr>mem = h2, Head = 0\<rparr>
       = Some (Inr (\<lparr>state0 = 32, state1 = 40\<rparr>, \<lparr>mem = h2, Head = 0\<rparr>))
   \<and> push_then_pop \<lparr>state0 = 0, state1 = 0\<rparr> \<lparr>mem = h2, Head = 8\<rparr>
       = Some (Inr (\<lparr>state0 = 0, state1 = 0\<rparr>, \<lparr>mem = h2, Head = 8\<rparr>))
   \<and> push_then_pop \<lparr>state0 = 0, state1 = 0\<rparr> \<lparr>mem = h2, Head = 0\<rparr>
       = Some (Inr (\<lparr>state0 = 0, state1 = 0\<rparr>, \<lparr>mem = h2, Head = 0\<rparr>))"
proof -
  let ?t = "\<lparr>state0 = 32, state1 = 40\<rparr>"
  let ?te = "\<lparr>state0 = 0, state1 = 0\<rparr>"
  let ?s = "\<lparr>mem = h2, Head = 8\<rparr>"
  let ?se = "\<lparr>mem = h2, Head = 0\<rparr>"
  have c: "chain (mem ?s) (Head ?s) [8, 16]"
    by (simp add: chain_h2_thread)
  have c0: "chain (mem ?se) (Head ?se) []"
    by (simp add: chain_null)
  have a: "aligned (Head ?s)" and a0: "aligned (Head ?se)"
    by (simp_all add: aligned_def ActionMask_def)
  have w: "wf_span (mem ?s) ?t [32, 40] [8, 16]" and w0: "wf_span (mem ?se) ?t [32, 40] []"
    and v: "wf_span (mem ?s) ?te [] [8, 16]" and v0: "wf_span (mem ?se) ?te [] []"
    by (simp_all add: wf_span_def chain_h2_task)
  from push_pop_restores [OF c a w] push_pop_restores [OF c0 a0 w0]
    push_pop_restores [OF c a v] push_pop_restores [OF c0 a0 v0] c a w
  show ?thesis by simp
qed

text \<open>
  C2. On a well-formed access set (the links from \<open>Head\<close> run through the records \<open>xs\<close>
  to null), \<open>insert\<close> reports a conflict and terminates fatally if and only if some
  listed record has a \<open>Pointer\<close> equal to the new storage pointer and the new action or
  that record's action is \<open>Modify\<close>. In particular a \<open>Read\<close> never conflicts when the
  listed records of the same storage pointer are all \<open>Read\<close>s. The statement needs no
  assumption on \<open>pointer\<close>, so it covers every non-null one.
\<close>

theorem insert_conflict_iff:
  assumes "chain (mem s) (Head s) xs"
  shows "(AccessSet_insert tracking access pc pointer flags s = Some (Inl Conflict)
           \<longleftrightarrow> conflicts (mem s) xs pointer (getAccessAction flags))
       \<and> (getAccessAction flags = Read \<and>
            (\<forall>cur \<in> set xs. Pointer (mem s cur) = pointer
                \<longrightarrow> Access_getAccessAction (mem s cur) = Read)
           \<longrightarrow> AccessSet_insert tracking access pc pointer flags s \<noteq> Some (Inl Conflict))"
proof -
  have iff: "AccessSet_insert tracking access pc pointer flags s = Some (Inl Conflict)
      \<longleftrightarrow> conflicts (mem s) xs pointer (getAccessAction flags)"
    by (simp add: AccessSet_insert_chain [OF assms])
  moreover have "\<not> conflicts (mem s) xs pointer (getAccessAction flags)"
    if "getAccessAction flags = Read"
      "\<forall>cur \<in> set xs. Pointer (mem s cur) = pointer
         \<longrightarrow> Access_getAccessAction (mem s cur) = Read"
    using that Read_neq_Modify by (auto simp: conflicts_def)
  ultimately show ?thesis by blast
qed

theorem insert_conflict_iff_witness:
  "chain h0 8 [8, 16]
   \<and> AccessSet_insert 32 24 7 0x1000 33 \<lparr>mem = h0, Head = 8\<rparr> = Some (Inl Conflict)
   \<and> AccessSet_insert 32 24 7 0x1000 32 \<lparr>mem = h0, Head = 8\<rparr> \<noteq> Some (Inl Conflict)
   \<and> AccessSet_insert 32 24 7 0x2000 32 \<lparr>mem = h0, Head = 8\<rparr> = Some (Inl Conflict)"
proof -
  have c: "chain (mem \<lparr>mem = h0, Head = 8\<rparr>) (Head \<lparr>mem = h0, Head = 8\<rparr>) [8, 16]"
    by (simp add: chain_h0)
  show ?thesis
    using c insert_conflict_iff [OF c, of 32 24 7 "0x1000" 33]
      insert_conflict_iff [OF c, of 32 24 7 "0x1000" 32]
      insert_conflict_iff [OF c, of 32 24 7 "0x2000" 32]
    by (simp add: conflicts_def h0_def getAccessAction_def Access_getAccessAction_def
        ActionMask_def Modify_def Read_def)
qed

text \<open>
  C3. Push with a non-null \<open>state[0]\<close> (\<open>T_begin\<close>) and a non-null thread head (cases 7
  and 8), where the saved tail \<open>state[1]\<close> (\<open>T_end\<close>) is a record, as it is in these
  cases, and the head pointer is aligned: the thread head becomes \<open>T_begin\<close>, the link of
  the saved tail becomes the old head, \<open>T_begin\<close> becomes the old head (the pivot) and
  \<open>T_end\<close> becomes null. The memory changes at the saved tail only, and there only in
  the link: its storage pointer, pc and action are kept.
\<close>

theorem push_splices_saved_span:
  assumes "state0 t \<noteq> 0" and "Head s \<noteq> 0" and "state1 t \<noteq> 0" and "aligned (Head s)"
  shows "\<exists>t' s'. swift_task_enterThreadLocalContext t s = Inr (t', s')
      \<and> Head s' = state0 t
      \<and> getNext (mem s' (state1 t)) = Head s
      \<and> state0 t' = Head s
      \<and> state1 t' = 0
      \<and> (\<forall>a. a \<noteq> state1 t \<longrightarrow> mem s' a = mem s a)
      \<and> Pointer (mem s' (state1 t)) = Pointer (mem s (state1 t))
      \<and> PC (mem s' (state1 t)) = PC (mem s (state1 t))
      \<and> Access_getAccessAction (mem s' (state1 t)) = Access_getAccessAction (mem s (state1 t))"
  using assms
  by (simp add: swift_task_enterThreadLocalContext_def task_defs Let_def getNext_setNext
      Pointer_setNext PC_setNext action_setNext)

theorem push_splices_saved_span_witness:
  "state0 \<lparr>state0 = 32, state1 = 40\<rparr> \<noteq> 0 \<and> Head \<lparr>mem = h2, Head = 8\<rparr> \<noteq> 0
   \<and> state1 \<lparr>state0 = 32, state1 = 40\<rparr> \<noteq> 0 \<and> aligned 8
   \<and> swift_task_enterThreadLocalContext \<lparr>state0 = 32, state1 = 40\<rparr> \<lparr>mem = h2, Head = 8\<rparr>
       = Inr (\<lparr>state0 = 8, state1 = 0\<rparr>,
              \<lparr>mem = h2(40 := \<lparr>Pointer = 0x5000, PC = 4, NextAndAction = 8\<rparr>), Head = 32\<rparr>)
   \<and> getNext ((h2(40 := \<lparr>Pointer = 0x5000, PC = 4, NextAndAction = 8\<rparr>)) 40) = 8"
proof -
  let ?t = "\<lparr>state0 = 32, state1 = 40\<rparr>"
  let ?s = "\<lparr>mem = h2, Head = 8\<rparr>"
  have a: "state0 ?t \<noteq> 0" and b: "Head ?s \<noteq> 0" and c: "state1 ?t \<noteq> 0"
    by simp_all
  have d: "aligned (Head ?s)"
    by (simp add: aligned_def ActionMask_def)
  from push_splices_saved_span [OF a b c d]
  obtain t' s' where p: "swift_task_enterThreadLocalContext ?t ?s = Inr (t', s')"
    and g: "getNext (mem s' (state1 ?t)) = Head ?s"
    by blast
  have e: "swift_task_enterThreadLocalContext ?t ?s
       = Inr (\<lparr>state0 = 8, state1 = 0\<rparr>,
              \<lparr>mem = h2(40 := \<lparr>Pointer = 0x5000, PC = 4, NextAndAction = 8\<rparr>), Head = 32\<rparr>)"
    by (simp add: swift_task_enterThreadLocalContext_def task_defs setNext_def h2_def h0_def
        ActionMask_def)
  from p g e have "getNext ((h2(40 := \<lparr>Pointer = 0x5000, PC = 4, NextAndAction = 8\<rparr>)) 40) = 8"
    by auto
  with e d show ?thesis by simp
qed

text \<open>
  C4. Pop with a non-null pivot in \<open>state[0]\<close>. If the thread head equals the pivot
  (case 3), \<open>T_begin\<close> and \<open>T_end\<close> are null afterwards and the set is unchanged. If the
  head differs and the pivot is on the thread's well-formed list, behind the records \<open>xs\<close>
  (cases 4, 7, 8), \<open>findParentAccess\<close> returns the last of \<open>xs\<close>, the thread head becomes
  the pivot, \<open>T_begin\<close> the old head and \<open>T_end\<close> that predecessor, whose link is nulled
  while its other fields are kept; the task now holds the chain \<open>xs\<close> and the thread the
  chain from the pivot on.
\<close>

theorem pop_with_pivot:
  assumes "state0 t \<noteq> 0"
  shows "(Head s = state0 t \<longrightarrow>
           swift_task_exitThreadLocalContext t s
             = Some (Inr (t\<lparr>state0 := 0, state1 := 0\<rparr>, s)))
      \<and> (Head s \<noteq> state0 t \<and> chain (mem s) (Head s) (xs @ state0 t # ys) \<longrightarrow>
           findParentAccess (state0 t) s = Some (Inr (last xs))
         \<and> swift_task_exitThreadLocalContext t s
             = Some (Inr (t\<lparr>state0 := Head s, state1 := last xs\<rparr>,
                          s\<lparr>Head := state0 t,
                            mem := (mem s)(last xs := setNext 0 (mem s (last xs)))\<rparr>))
         \<and> getNext (setNext 0 (mem s (last xs))) = 0
         \<and> Pointer (setNext 0 (mem s (last xs))) = Pointer (mem s (last xs))
         \<and> PC (setNext 0 (mem s (last xs))) = PC (mem s (last xs))
         \<and> Access_getAccessAction (setNext 0 (mem s (last xs)))
             = Access_getAccessAction (mem s (last xs))
         \<and> chain ((mem s)(last xs := setNext 0 (mem s (last xs)))) (Head s) xs
         \<and> chain ((mem s)(last xs := setNext 0 (mem s (last xs)))) (state0 t) (state0 t # ys))"
proof (intro conjI impI)
  assume "Head s = state0 t"
  with assms show "swift_task_exitThreadLocalContext t s
             = Some (Inr (t\<lparr>state0 := 0, state1 := 0\<rparr>, s))"
    by (simp add: swift_task_exitThreadLocalContext_def task_defs)
next
  assume a: "Head s \<noteq> state0 t \<and> chain (mem s) (Head s) (xs @ state0 t # ys)"
  then have c: "chain (mem s) (Head s) (xs @ state0 t # ys)" and ne: "xs \<noteq> []"
    by (auto simp: chain_def)
  note sp = chain_split [OF c]
  from sp(1) ne have "last xs \<noteq> 0"
    using lseg_not_null last_in_set by metis
  moreover show fp: "findParentAccess (state0 t) s = Some (Inr (last xs))"
    using findParentAccess_listed [OF c] ne by simp
  ultimately show "swift_task_exitThreadLocalContext t s
             = Some (Inr (t\<lparr>state0 := Head s, state1 := last xs\<rparr>,
                          s\<lparr>Head := state0 t,
                            mem := (mem s)(last xs := setNext 0 (mem s (last xs)))\<rparr>))"
    using assms a by (simp add: swift_task_exitThreadLocalContext_def task_defs)
  show "getNext (setNext 0 (mem s (last xs))) = 0"
    by (simp add: getNext_setNext aligned_0)
  show "Pointer (setNext 0 (mem s (last xs))) = Pointer (mem s (last xs))"
    by (rule Pointer_setNext)
  show "PC (setNext 0 (mem s (last xs))) = PC (mem s (last xs))"
    by (rule PC_setNext)
  show "Access_getAccessAction (setNext 0 (mem s (last xs)))
      = Access_getAccessAction (mem s (last xs))"
    by (simp add: action_setNext aligned_0)
  show "chain ((mem s)(last xs := setNext 0 (mem s (last xs)))) (Head s) xs"
    using c ne by (rule chain_cut)
  show "chain ((mem s)(last xs := setNext 0 (mem s (last xs)))) (state0 t) (state0 t # ys)"
    using c ne by (rule chain_cut)
qed

theorem pop_with_pivot_witness:
  "state0 \<lparr>state0 = 8, state1 = 0\<rparr> \<noteq> 0
   \<and> swift_task_exitThreadLocalContext \<lparr>state0 = 8, state1 = 0\<rparr> \<lparr>mem = h1, Head = 8\<rparr>
       = Some (Inr (\<lparr>state0 = 0, state1 = 0\<rparr>, \<lparr>mem = h1, Head = 8\<rparr>))
   \<and> chain h1 24 ([24] @ 8 # [16])
   \<and> findParentAccess 8 \<lparr>mem = h1, Head = 24\<rparr> = Some (Inr 24)
   \<and> swift_task_exitThreadLocalContext \<lparr>state0 = 8, state1 = 0\<rparr> \<lparr>mem = h1, Head = 24\<rparr>
       = Some (Inr (\<lparr>state0 = 24, state1 = 24\<rparr>,
                    \<lparr>mem = h1(24 := \<lparr>Pointer = 0x3000, PC = 7, NextAndAction = 1\<rparr>),
                     Head = 8\<rparr>))"
proof -
  let ?t = "\<lparr>state0 = 8, state1 = 0\<rparr>"
  let ?sa = "\<lparr>mem = h1, Head = 8\<rparr>"
  let ?sb = "\<lparr>mem = h1, Head = 24\<rparr>"
  have a: "state0 ?t \<noteq> 0" by simp
  have c: "chain (mem ?sb) (Head ?sb) ([24] @ state0 ?t # [16])"
    by (simp add: chain_h1)
  have n: "Head ?sb \<noteq> state0 ?t" by simp
  have v: "setNext 0 (h1 24) = \<lparr>Pointer = 0x3000, PC = 7, NextAndAction = 1\<rparr>"
    by (simp add: setNext_def h1_def ActionMask_def)
  from pop_with_pivot [OF a, of ?sa] pop_with_pivot [OF a, of ?sb "[24]" "[16]"] c n v a
  show ?thesis by simp
qed

text \<open>
  C5. A tracked insert that does not conflict (no listed record has the same storage
  pointer with one of the two actions a \<open>Modify\<close>: a condition on the set and the
  arguments, not on the result), of a non-null record that is not yet on the list, into
  a well-formed set whose head pointer is aligned: \<open>insert\<close> returns \<open>true\<close>,
  the record holds the given pc, storage pointer and action, its link is the old head,
  it is the new head, and the chain from the new head is the record followed by the old
  list \<open>xs\<close> in its old order. No other address of the memory changes.
\<close>

theorem insert_tracked_pushes_front:
  assumes "chain (mem s) (Head s) xs" and "aligned (Head s)"
    and "access \<noteq> 0" and "access \<notin> set xs"
    and "isTracking tracking flags"
    and "\<not> conflicts (mem s) xs pointer (getAccessAction flags)"
  shows "\<exists>s'. AccessSet_insert tracking access pc pointer flags s = Some (Inr (True, s'))
      \<and> Head s' = access
      \<and> Pointer (mem s' access) = pointer
      \<and> PC (mem s' access) = pc
      \<and> Access_getAccessAction (mem s' access) = getAccessAction flags
      \<and> getNext (mem s' access) = Head s
      \<and> chain (mem s') (Head s') (access # xs)
      \<and> (\<forall>a. a \<noteq> access \<longrightarrow> mem s' a = mem s a)"
proof -
  let ?rec = "initialize pc pointer (Head s) (getAccessAction flags)"
  let ?s' = "s\<lparr>mem := (mem s)(access := ?rec), Head := access\<rparr>"
  note no = assms(6)
  have res: "AccessSet_insert tracking access pc pointer flags s = Some (Inr (True, ?s'))"
    using no assms(3,5) by (simp add: AccessSet_insert_chain [OF assms(1)])
  have link: "getNext ?rec = Head s"
    using assms(2) by (rule getNext_initialize)
  have act: "Access_getAccessAction ?rec = getAccessAction flags"
    using assms(2) by (rule action_initialize)
  have "lseg ((mem s)(access := ?rec)) (Head s) xs 0"
    using assms(1,4) by (simp add: lseg_update_other chain_def)
  then have ch: "chain (mem ?s') (Head ?s') (access # xs)"
    using assms(3) link by (simp add: chain_def)
  have flds: "Pointer ?rec = pointer" "PC ?rec = pc"
    by (simp_all add: initialize_def)
  show ?thesis
    using res link act ch flds by (intro exI [of _ ?s']) simp
qed

theorem insert_tracked_pushes_front_witness:
  "chain h0 8 [8, 16] \<and> aligned 8 \<and> (24 :: uintptr) \<noteq> 0 \<and> 24 \<notin> set [8, 16 :: uintptr]
   \<and> isTracking 32 33
   \<and> \<not> conflicts h0 [8, 16] 0x3000 (getAccessAction 33)
   \<and> AccessSet_insert 32 24 7 0x3000 33 \<lparr>mem = h0, Head = 8\<rparr>
       = Some (Inr (True,
           \<lparr>mem = h0(24 := \<lparr>Pointer = 0x3000, PC = 7, NextAndAction = 9\<rparr>), Head = 24\<rparr>))
   \<and> chain (h0(24 := \<lparr>Pointer = 0x3000, PC = 7, NextAndAction = 9\<rparr>)) 24 [24, 8, 16]
   \<and> chain h0 0 [] \<and> aligned 0 \<and> isTracking 32 32
   \<and> \<not> conflicts h0 [] 0x1000 (getAccessAction 32)
   \<and> AccessSet_insert 32 24 7 0x1000 32 \<lparr>mem = h0, Head = 0\<rparr>
       = Some (Inr (True,
           \<lparr>mem = h0(24 := \<lparr>Pointer = 0x1000, PC = 7, NextAndAction = 0\<rparr>), Head = 24\<rparr>))
   \<and> chain (h0(24 := \<lparr>Pointer = 0x1000, PC = 7, NextAndAction = 0\<rparr>)) 24 [24]"
proof -
  let ?s = "\<lparr>mem = h0, Head = 8\<rparr>"
  let ?se = "\<lparr>mem = h0, Head = 0\<rparr>"
  have c: "chain (mem ?s) (Head ?s) [8, 16]"
    by (simp add: chain_h0)
  have ce: "chain (mem ?se) (Head ?se) []"
    by (simp add: chain_null)
  have a: "aligned (Head ?s)" and ae: "aligned (Head ?se)"
    by (simp_all add: aligned_def ActionMask_def)
  have t: "isTracking 32 33" and te: "isTracking 32 32"
    by (simp_all add: isTracking_def)
  have n: "\<not> conflicts (mem ?s) [8, 16] 0x3000 (getAccessAction 33)"
    by (simp add: conflicts_def h0_def)
  have ne: "\<not> conflicts (mem ?se) [] 0x1000 (getAccessAction 32)"
    by (simp add: conflicts_def)
  have m: "(24 :: uintptr) \<noteq> 0" "24 \<notin> set [8, 16 :: uintptr]"
    and me: "24 \<notin> set ([] :: uintptr list)"
    by simp_all
  from insert_tracked_pushes_front [OF c a m t n, of 7]
  obtain s' where s': "AccessSet_insert 32 24 7 0x3000 33 ?s = Some (Inr (True, s'))"
    and ch: "chain (mem s') (Head s') [24, 8, 16]"
    by blast
  from insert_tracked_pushes_front [OF ce ae m(1) me te ne, of 7]
  obtain r' where r': "AccessSet_insert 32 24 7 0x1000 32 ?se = Some (Inr (True, r'))"
    and chr: "chain (mem r') (Head r') [24]"
    by blast
  have e: "AccessSet_insert 32 24 7 0x3000 33 ?s = Some (Inr (True,
           \<lparr>mem = h0(24 := \<lparr>Pointer = 0x3000, PC = 7, NextAndAction = 9\<rparr>), Head = 24\<rparr>))"
    using AccessSet_insert_chain [OF c, of 32 24 7 "0x3000" 33] n
    by (simp add: isTracking_def initialize_def getAccessAction_def ActionMask_def)
  have ee: "AccessSet_insert 32 24 7 0x1000 32 ?se = Some (Inr (True,
           \<lparr>mem = h0(24 := \<lparr>Pointer = 0x1000, PC = 7, NextAndAction = 0\<rparr>), Head = 24\<rparr>))"
    using AccessSet_insert_chain [OF ce, of 32 24 7 "0x1000" 32] ne
    by (simp add: isTracking_def initialize_def getAccessAction_def ActionMask_def)
  from s' ch e
  have k: "chain (h0(24 := \<lparr>Pointer = 0x3000, PC = 7, NextAndAction = 9\<rparr>)) 24 [24, 8, 16]"
    by auto
  from r' chr ee
  have ke: "chain (h0(24 := \<lparr>Pointer = 0x1000, PC = 7, NextAndAction = 0\<rparr>)) 24 [24]"
    by auto
  from e ee k ke c ce a ae t te n ne m show ?thesis
    by simp
qed

text \<open>
  C6. With flags that do not ask for tracking, \<open>insert\<close> still scans: it ends in the fatal
  conflict when the conflict rule holds, and otherwise returns \<open>false\<close> with the set
  untouched. \<open>swift_beginAccess\<close> (checking enabled) then fails the same way or returns
  with null stored in the \<open>Pointer\<close> field of the buffer, the head, the list and every
  other address unchanged; \<open>swift_endAccess\<close> on that buffer returns at once and changes
  nothing.
\<close>

theorem nontracked_begin_end:
  assumes "chain (mem s) (Head s) xs" and "\<not> isTracking tracking flags"
    and "pointer \<noteq> 0" and "buffer \<noteq> 0"
  shows "AccessSet_insert tracking buffer pc pointer flags s =
           (if conflicts (mem s) xs pointer (getAccessAction flags)
            then Some (Inl Conflict) else Some (Inr (False, s)))
      \<and> (if conflicts (mem s) xs pointer (getAccessAction flags)
         then swift_beginAccess False tracking ra pointer buffer flags pc s
                = Some (Inl Conflict)
         else \<exists>s1. swift_beginAccess False tracking ra pointer buffer flags pc s
                = Some (Inr s1)
              \<and> Pointer (mem s1 buffer) = 0
              \<and> Head s1 = Head s
              \<and> chain (mem s1) (Head s1) xs
              \<and> (\<forall>a. a \<noteq> buffer \<longrightarrow> mem s1 a = mem s a)
              \<and> swift_endAccess buffer s1 = Some (Inr s1))"
proof -
  let ?s1 = "s\<lparr>mem := (mem s)(buffer := (mem s buffer)\<lparr>Pointer := 0\<rparr>)\<rparr>"
  have ins: "AccessSet_insert tracking buffer pc' pointer flags s =
           (if conflicts (mem s) xs pointer (getAccessAction flags)
            then Some (Inl Conflict) else Some (Inr (False, s)))" for pc'
    using assms(2) by (simp add: AccessSet_insert_chain [OF assms(1)])
  have "getNext ((mem s buffer)\<lparr>Pointer := 0\<rparr>) = getNext (mem s buffer)"
    by (simp add: getNext_def)
  then have ch: "chain (mem ?s1) (Head ?s1) xs"
    using assms(1) by (simp add: chain_def lseg_update_same_link)
  have en: "swift_endAccess buffer ?s1 = Some (Inr ?s1)"
    using assms(4) by (simp add: swift_endAccess_def)
  have be: "swift_beginAccess False tracking ra pointer buffer flags pc s =
      (if conflicts (mem s) xs pointer (getAccessAction flags)
       then Some (Inl Conflict) else Some (Inr ?s1))"
    using assms(3,4) by (simp add: swift_beginAccess_def ins Let_def)
  show ?thesis
  proof (cases "conflicts (mem s) xs pointer (getAccessAction flags)")
    case True
    then show ?thesis by (simp add: ins be)
  next
    case False
    have "\<exists>s1. swift_beginAccess False tracking ra pointer buffer flags pc s
                = Some (Inr s1)
              \<and> Pointer (mem s1 buffer) = 0
              \<and> Head s1 = Head s
              \<and> chain (mem s1) (Head s1) xs
              \<and> (\<forall>a. a \<noteq> buffer \<longrightarrow> mem s1 a = mem s a)
              \<and> swift_endAccess buffer s1 = Some (Inr s1)"
      using False be ch en by (intro exI [of _ ?s1]) simp
    with False show ?thesis by (simp add: ins)
  qed
qed

theorem nontracked_begin_end_witness:
  "chain h0 8 [8, 16] \<and> \<not> isTracking 32 1 \<and> (0x2000 :: uintptr) \<noteq> 0 \<and> (24 :: uintptr) \<noteq> 0
   \<and> AccessSet_insert 32 24 7 0x2000 1 \<lparr>mem = h0, Head = 8\<rparr> = Some (Inl Conflict)
   \<and> AccessSet_insert 32 24 7 0x1000 0 \<lparr>mem = h0, Head = 8\<rparr>
       = Some (Inr (False, \<lparr>mem = h0, Head = 8\<rparr>))
   \<and> swift_beginAccess False 32 99 0x1000 24 0 7 \<lparr>mem = h0, Head = 8\<rparr>
       = Some (Inr \<lparr>mem = h0(24 := \<lparr>Pointer = 0, PC = 0, NextAndAction = 0\<rparr>), Head = 8\<rparr>)
   \<and> swift_endAccess 24 \<lparr>mem = h0(24 := \<lparr>Pointer = 0, PC = 0, NextAndAction = 0\<rparr>), Head = 8\<rparr>
       = Some (Inr \<lparr>mem = h0(24 := \<lparr>Pointer = 0, PC = 0, NextAndAction = 0\<rparr>), Head = 8\<rparr>)"
proof -
  let ?s = "\<lparr>mem = h0, Head = 8\<rparr>"
  let ?s1 = "\<lparr>mem = h0(24 := \<lparr>Pointer = 0, PC = 0, NextAndAction = 0\<rparr>), Head = 8\<rparr>"
  have c: "chain (mem ?s) (Head ?s) [8, 16]"
    by (simp add: chain_h0)
  have t1: "\<not> isTracking 32 1" and t0: "\<not> isTracking 32 0"
    by (simp_all add: isTracking_def)
  have p2: "(0x2000 :: uintptr) \<noteq> 0" and p1: "(0x1000 :: uintptr) \<noteq> 0"
    and b: "(24 :: uintptr) \<noteq> 0"
    by simp_all
  have k2: "conflicts (mem ?s) [8, 16] 0x2000 (getAccessAction 1)"
    by (simp add: conflicts_def h0_def getAccessAction_def Access_getAccessAction_def
        ActionMask_def Modify_def)
  have k1: "\<not> conflicts (mem ?s) [8, 16] 0x1000 (getAccessAction 0)"
    by (simp add: conflicts_def h0_def getAccessAction_def Access_getAccessAction_def
        ActionMask_def Modify_def)
  from nontracked_begin_end [OF c t1 p2 b, of 7 99] k2
  have i2: "AccessSet_insert 32 24 7 0x2000 1 ?s = Some (Inl Conflict)"
    by simp
  from nontracked_begin_end [OF c t0 p1 b, of 7 99] k1
  obtain s1 where i1: "AccessSet_insert 32 24 7 0x1000 0 ?s = Some (Inr (False, ?s))"
    and s1: "swift_beginAccess False 32 99 0x1000 24 0 7 ?s = Some (Inr s1)"
    and e: "swift_endAccess 24 s1 = Some (Inr s1)"
    by auto
  have "swift_beginAccess False 32 99 0x1000 24 0 7 ?s = Some (Inr ?s1)"
    using i1 by (simp add: swift_beginAccess_def h0_def)
  with s1 e i1 i2 c t1 p2 b show ?thesis by simp
qed

text \<open>
  C7. With the process-wide flag set, \<open>swift_beginAccess\<close> returns after storing null in
  the \<open>Pointer\<close> field of the buffer: the other fields of the buffer, every other
  address and the head of the thread's set are unchanged. No scan takes place: the
  statement holds for every memory, also one where the scan would find a conflict or
  would not end. The matching \<open>swift_endAccess\<close> returns the state as it is.
\<close>

theorem disabled_begin_end:
  assumes "pointer \<noteq> 0" and "buffer \<noteq> 0"
  shows "\<exists>s1. swift_beginAccess True tracking ra pointer buffer flags pc s = Some (Inr s1)
      \<and> Pointer (mem s1 buffer) = 0
      \<and> PC (mem s1 buffer) = PC (mem s buffer)
      \<and> NextAndAction (mem s1 buffer) = NextAndAction (mem s buffer)
      \<and> (\<forall>a. a \<noteq> buffer \<longrightarrow> mem s1 a = mem s a)
      \<and> Head s1 = Head s
      \<and> swift_endAccess buffer s1 = Some (Inr s1)"
  using assms by (simp add: swift_beginAccess_def swift_endAccess_def)

theorem disabled_begin_end_witness:
  "(0x2000 :: uintptr) \<noteq> 0 \<and> (24 :: uintptr) \<noteq> 0
   \<and> swift_beginAccess True 32 99 0x2000 24 33 0 \<lparr>mem = h0, Head = 8\<rparr>
       = Some (Inr \<lparr>mem = h0(24 := \<lparr>Pointer = 0, PC = 0, NextAndAction = 0\<rparr>), Head = 8\<rparr>)
   \<and> swift_endAccess 24 \<lparr>mem = h0(24 := \<lparr>Pointer = 0, PC = 0, NextAndAction = 0\<rparr>), Head = 8\<rparr>
       = Some (Inr \<lparr>mem = h0(24 := \<lparr>Pointer = 0, PC = 0, NextAndAction = 0\<rparr>), Head = 8\<rparr>)"
proof -
  let ?s = "\<lparr>mem = h0, Head = 8\<rparr>"
  have p: "(0x2000 :: uintptr) \<noteq> 0" and b: "(24 :: uintptr) \<noteq> 0"
    by simp_all
  from disabled_begin_end [OF p b, of 32 99 33 0 ?s]
  obtain s1 where s1: "swift_beginAccess True 32 99 0x2000 24 33 0 ?s = Some (Inr s1)"
    and e: "swift_endAccess 24 s1 = Some (Inr s1)"
    by blast
  have "swift_beginAccess True 32 99 0x2000 24 33 0 ?s
      = Some (Inr \<lparr>mem = h0(24 := \<lparr>Pointer = 0, PC = 0, NextAndAction = 0\<rparr>), Head = 8\<rparr>)"
    by (simp add: swift_beginAccess_def h0_def)
  with s1 e p b show ?thesis by simp
qed

text \<open>
  C8. \<open>remove\<close> of a record that is on a well-formed set, whose list is \<open>xs\<close>, the record,
  then \<open>ys\<close>: the call returns (the \<open>swift_unreachable\<close> at the end of the walk is not
  reached), and the chain from the head is then \<open>xs\<close> followed by \<open>ys\<close>, so exactly that
  record is unlinked and the others keep their order. When the record is the head
  (\<open>xs\<close> empty) the head becomes the record's link and the memory is untouched; otherwise
  the head stays and only the link of the predecessor (the last of \<open>xs\<close>) changes, to the
  record's own link, its storage pointer, pc and action staying as they were.
\<close>

theorem remove_unlinks_record:
  assumes "chain (mem s) (Head s) (xs @ access # ys)"
  shows "\<exists>s'. AccessSet_remove access s = Some (Inr s')
      \<and> chain (mem s') (Head s') (xs @ ys)
      \<and> (if xs = [] then Head s' = getNext (mem s access) \<and> mem s' = mem s
         else Head s' = Head s
            \<and> getNext (mem s' (last xs)) = getNext (mem s access)
            \<and> Pointer (mem s' (last xs)) = Pointer (mem s (last xs))
            \<and> PC (mem s' (last xs)) = PC (mem s (last xs))
            \<and> Access_getAccessAction (mem s' (last xs))
                = Access_getAccessAction (mem s (last xs))
            \<and> (\<forall>a. a \<noteq> last xs \<longrightarrow> mem s' a = mem s a))"
proof (cases "xs = []")
  case True
  with assms have c: "chain (mem s) (Head s) (access # ys)" by simp
  then have "chain (mem s) (getNext (mem s access)) ys" by (simp add: chain_def)
  then show ?thesis
    using True AccessSet_remove_head [OF c] by simp
next
  case False
  let ?s' = "s\<lparr>mem := (mem s)(last xs :=
                 setNext (getNext (mem s access)) (mem s (last xs)))\<rparr>"
  have "AccessSet_remove access s = Some (Inr ?s')"
    using assms False by (rule AccessSet_remove_inner)
  moreover have "chain (mem ?s') (Head ?s') (xs @ ys)"
    using chain_after_unlink [OF assms False] by simp
  ultimately show ?thesis
    using False
    by (intro exI [of _ ?s'])
      (simp add: getNext_setNext aligned_getNext Pointer_setNext PC_setNext action_setNext)
qed

theorem remove_unlinks_record_witness:
  "chain h1 24 ([24] @ 8 # [16])
   \<and> AccessSet_remove 8 \<lparr>mem = h1, Head = 24\<rparr>
       = Some (Inr \<lparr>mem = h1(24 := \<lparr>Pointer = 0x3000, PC = 7, NextAndAction = 17\<rparr>),
                    Head = 24\<rparr>)
   \<and> chain (h1(24 := \<lparr>Pointer = 0x3000, PC = 7, NextAndAction = 17\<rparr>)) 24 [24, 16]
   \<and> chain h1 24 ([] @ 24 # [8, 16])
   \<and> AccessSet_remove 24 \<lparr>mem = h1, Head = 24\<rparr> = Some (Inr \<lparr>mem = h1, Head = 8\<rparr>)
   \<and> chain h1 8 [8, 16]"
proof -
  let ?s = "\<lparr>mem = h1, Head = 24\<rparr>"
  have c1: "chain (mem ?s) (Head ?s) ([24] @ 8 # [16])"
    and c2: "chain (mem ?s) (Head ?s) ([] @ 24 # [8, 16])"
    by (simp_all add: chain_h1)
  from remove_unlinks_record [OF c1]
  obtain s1 where r1: "AccessSet_remove 8 ?s = Some (Inr s1)"
    and k1: "chain (mem s1) (Head s1) [24, 16]"
    by auto
  from remove_unlinks_record [OF c2]
  obtain s2 where r2: "AccessSet_remove 24 ?s = Some (Inr s2)"
    and k2: "chain (mem s2) (Head s2) [8, 16]"
    and m2: "Head s2 = getNext (mem ?s 24)" "mem s2 = mem ?s"
    by auto
  have g: "getNext (h1 24) = 8"
    by (simp add: h1_def getNext_def NextMask_def ActionMask_def)
  from m2 g have "s2 = \<lparr>mem = h1, Head = 8\<rparr>"
    by simp
  moreover have "AccessSet_remove 8 ?s
       = Some (Inr \<lparr>mem = h1(24 := \<lparr>Pointer = 0x3000, PC = 7, NextAndAction = 17\<rparr>),
                    Head = 24\<rparr>)"
    using AccessSet_remove_inner [OF c1]
    by (simp add: h1_def h0_def setNext_def getNext_def NextMask_def ActionMask_def)
  ultimately show ?thesis
    using r1 k1 r2 k2 c1 c2 by auto
qed

text \<open>
  C9, as stated, fails on the empty set: \<open>findParentAccess\<close> reads \<open>Head->getNext()\<close>
  before any test, so with a null head the call does not return a record or null.
\<close>

theorem findParentAccess_empty_set:
  "chain h0 0 []
   \<and> findParentAccess 8 \<lparr>mem = h0, Head = 0\<rparr> = Some (Inl NullDeref)
   \<and> findParentAccess 8 \<lparr>mem = h0, Head = 0\<rparr> \<noteq> Some (Inr 0)"
  by (simp add: findParentAccess_def chain_def)

text \<open>
  C9, amended. On a well-formed set that is not empty, \<open>findParentAccess\<close> returns the
  record just before the given one when it is listed behind the head, null when it is
  the head, and null when it is not on the list.
\<close>

theorem findParentAccess_nonempty:
  assumes "chain (mem s) (Head s) xs" and "xs \<noteq> []"
  shows "(\<forall>bs cs. xs = bs @ access # cs \<longrightarrow>
            findParentAccess access s = Some (Inr (if bs = [] then 0 else last bs)))
      \<and> (access \<notin> set xs \<longrightarrow> findParentAccess access s = Some (Inr 0))"
  using assms findParentAccess_listed [of s _ access] findParentAccess_absent [of s xs access]
  by blast

theorem findParentAccess_nonempty_witness:
  "chain h1 24 [24, 8, 16] \<and> [24, 8, 16 :: uintptr] \<noteq> []
   \<and> findParentAccess 16 \<lparr>mem = h1, Head = 24\<rparr> = Some (Inr 8)
   \<and> findParentAccess 8 \<lparr>mem = h1, Head = 24\<rparr> = Some (Inr 24)
   \<and> findParentAccess 24 \<lparr>mem = h1, Head = 24\<rparr> = Some (Inr 0)
   \<and> findParentAccess 48 \<lparr>mem = h1, Head = 24\<rparr> = Some (Inr 0)"
proof -
  let ?s = "\<lparr>mem = h1, Head = 24\<rparr>"
  have c: "chain (mem ?s) (Head ?s) [24, 8, 16]"
    by (simp add: chain_h1)
  have n: "[24, 8, 16 :: uintptr] \<noteq> []" by simp
  have d: "[24, 8, 16 :: uintptr] = [24, 8] @ 16 # []" "[24, 8, 16 :: uintptr] = [24] @ 8 # [16]"
    "[24, 8, 16 :: uintptr] = [] @ 24 # [8, 16]"
    by simp_all
  from findParentAccess_nonempty [OF c n, of 16] d(1)
  have "findParentAccess 16 ?s = Some (Inr (if [24, 8 :: uintptr] = [] then 0 else last [24, 8]))"
    by blast
  moreover from findParentAccess_nonempty [OF c n, of 8] d(2)
  have "findParentAccess 8 ?s = Some (Inr (if [24 :: uintptr] = [] then 0 else last [24]))"
    by blast
  moreover from findParentAccess_nonempty [OF c n, of 24] d(3)
  have "findParentAccess 24 ?s = Some (Inr (if ([] :: uintptr list) = [] then 0 else last []))"
    by blast
  moreover from findParentAccess_nonempty [OF c n, of 48]
  have "findParentAccess 48 ?s = Some (Inr 0)"
    by simp
  ultimately show ?thesis
    using c by simp
qed

text \<open>
  C10. \<open>swift_endAccess\<close> on a tracked buffer (non-null \<open>Pointer\<close>, on the well-formed
  list of the thread) removes it from the list and leaves the three words of the buffer
  as they were: the \<open>Pointer\<close>, the pc and the action are unchanged, and the \<open>Pointer\<close>
  is still non-null afterwards.
\<close>

theorem end_access_keeps_buffer:
  assumes "chain (mem s) (Head s) (xs @ buffer # ys)" and "Pointer (mem s buffer) \<noteq> 0"
  shows "\<exists>s'. swift_endAccess buffer s = Some (Inr s')
      \<and> chain (mem s') (Head s') (xs @ ys)
      \<and> mem s' buffer = mem s buffer
      \<and> Pointer (mem s' buffer) = Pointer (mem s buffer)
      \<and> PC (mem s' buffer) = PC (mem s buffer)
      \<and> Access_getAccessAction (mem s' buffer) = Access_getAccessAction (mem s buffer)
      \<and> Pointer (mem s' buffer) \<noteq> 0"
proof -
  note sp = chain_split [OF assms(1)]
  have en: "swift_endAccess buffer s = AccessSet_remove buffer s"
    using sp(2) assms(2) by (simp add: swift_endAccess_def)
  show ?thesis
  proof (cases "xs = []")
    case True
    with assms(1) have c: "chain (mem s) (Head s) (buffer # ys)" by simp
    show ?thesis
      using True sp(3) assms(2) AccessSet_remove_head [OF c] en by simp
  next
    case False
    let ?s' = "s\<lparr>mem := (mem s)(last xs :=
                 setNext (getNext (mem s buffer)) (mem s (last xs)))\<rparr>"
    have ne: "last xs \<noteq> buffer"
      using sp(4) False last_in_set by fastforce
    have "swift_endAccess buffer s = Some (Inr ?s')"
      using AccessSet_remove_inner [OF assms(1) False] en by simp
    moreover have "chain (mem ?s') (Head ?s') (xs @ ys)"
      using chain_after_unlink [OF assms(1) False] by simp
    ultimately show ?thesis
      using ne assms(2) by (intro exI [of _ ?s']) simp
  qed
qed

theorem end_access_keeps_buffer_witness:
  "chain h1 24 ([24] @ 8 # [16]) \<and> Pointer (h1 8) \<noteq> 0
   \<and> swift_endAccess 8 \<lparr>mem = h1, Head = 24\<rparr>
       = Some (Inr \<lparr>mem = h1(24 := \<lparr>Pointer = 0x3000, PC = 7, NextAndAction = 17\<rparr>),
                    Head = 24\<rparr>)
   \<and> (h1(24 := \<lparr>Pointer = 0x3000, PC = 7, NextAndAction = 17\<rparr>)) 8
       = \<lparr>Pointer = 0x1000, PC = 1, NextAndAction = 16\<rparr>"
proof -
  let ?s = "\<lparr>mem = h1, Head = 24\<rparr>"
  have c: "chain (mem ?s) (Head ?s) ([24] @ 8 # [16])"
    by (simp add: chain_h1)
  have p: "Pointer (mem ?s 8) \<noteq> 0"
    by (simp add: h1_def h0_def)
  from end_access_keeps_buffer [OF c p]
  obtain s' where e: "swift_endAccess 8 ?s = Some (Inr s')" and k: "mem s' 8 = mem ?s 8"
    by auto
  have "swift_endAccess 8 ?s
       = Some (Inr \<lparr>mem = h1(24 := \<lparr>Pointer = 0x3000, PC = 7, NextAndAction = 17\<rparr>),
                    Head = 24\<rparr>)"
    using AccessSet_remove_inner [OF c]
    by (simp add: swift_endAccess_def h1_def h0_def setNext_def getNext_def NextMask_def
        ActionMask_def)
  with e k c p show ?thesis
    by (auto simp: h1_def h0_def)
qed

end
